theory Spec2Isabelle
  imports Complex_Main
begin

section \<open>Python strings\<close>

text \<open>
  A Python \<open>str\<close> is a sequence of Unicode code points; \<open>len\<close> counts code points.
  A code point is modelled as a natural number and a string as a list of them.
  \<open>py\<close> reads an ASCII literal.
\<close>

type_synonym pystr = "nat list"

definition py :: "string \<Rightarrow> pystr" where
  "py s = map of_char s"

text \<open>
  The characters removed by \<open>str.strip()\<close> with no argument: those for which CPython's
  \<open>Py_UNICODE_ISSPACE\<close> holds.
\<close>

definition is_space :: "nat \<Rightarrow> bool" where
  "is_space c \<longleftrightarrow>
     (9 \<le> c \<and> c \<le> 13) \<or> (28 \<le> c \<and> c \<le> 32) \<or> c = 133 \<or> c = 160 \<or> c = 5760 \<or>
     (8192 \<le> c \<and> c \<le> 8202) \<or> c = 8232 \<or> c = 8233 \<or> c = 8239 \<or> c = 8287 \<or>
     c = 12288"

text \<open>\<open>s.strip()\<close>\<close>

definition strip :: "pystr \<Rightarrow> pystr" where
  "strip s = rev (dropWhile is_space (rev (dropWhile is_space s)))"

text \<open>\<open>text.replace('\n', ' ')\<close>: every line feed (10) becomes a space (32).\<close>

definition replace_nl :: "pystr \<Rightarrow> pystr" where
  "replace_nl s = map (\<lambda>c. if c = 10 then 32 else c) s"

text \<open>
  \<open>s.split('. ')\<close>: the text is scanned from the left for the two code points 46, 32;
  occurrences do not overlap, and the result always has one more piece than there are
  occurrences (so the empty string gives one empty piece). \<open>cur\<close> is the piece being read.
\<close>

fun split_from :: "pystr \<Rightarrow> pystr \<Rightarrow> pystr list" where
  "split_from cur [] = [cur]"
| "split_from cur [c] = [cur @ [c]]"
| "split_from cur (c # d # cs) =
     (if c = 46 \<and> d = 32 then cur # split_from [] cs
      else split_from (cur @ [c]) (d # cs))"

definition split_dot :: "pystr \<Rightarrow> pystr list" where
  "split_dot s = split_from [] s"

text \<open>\<open>'. '.join(xs)\<close>\<close>

fun join_dot :: "pystr list \<Rightarrow> pystr" where
  "join_dot [] = []"
| "join_dot [x] = x"
| "join_dot (x # y # ys) = x @ [46, 32] @ join_dot (y # ys)"

section \<open>The text chunker\<close>

text \<open>\<open>'. '.join(current_chunk) + '.'\<close>, the string appended to \<open>chunks\<close>.\<close>

definition flush :: "pystr list \<Rightarrow> pystr" where
  "flush cur = join_dot cur @ [46]"

text \<open>
  The loop of \<open>chunk_text\<close> over the sentences, with its three variables \<open>chunks\<close>,
  \<open>current_chunk\<close> and \<open>current_length\<close>. \<open>max_chars\<close> is a Python integer.
\<close>

fun chunk_loop ::
  "int \<Rightarrow> pystr list \<Rightarrow> pystr list \<Rightarrow> pystr list \<Rightarrow> int \<Rightarrow> pystr list \<times> pystr list \<times> int"
where
  "chunk_loop max_chars [] chunks current_chunk current_length =
     (chunks, current_chunk, current_length)"
| "chunk_loop max_chars (sentence0 # rest) chunks current_chunk current_length =
     (let sentence = strip sentence0 in
      if sentence = [] then chunk_loop max_chars rest chunks current_chunk current_length
      else if current_length + int (length sentence) + 2 \<le> max_chars then
        chunk_loop max_chars rest chunks (current_chunk @ [sentence])
          (current_length + int (length sentence) + 2)
      else
        chunk_loop max_chars rest
          (if current_chunk \<noteq> [] then chunks @ [flush current_chunk] else chunks)
          [sentence] (int (length sentence)))"

definition chunk_text :: "pystr \<Rightarrow> int \<Rightarrow> pystr list" where
  "chunk_text text max_chars =
     (let sentences = split_dot (replace_nl text) in
      case chunk_loop max_chars sentences [] [] 0 of
        (chunks, current_chunk, current_length) \<Rightarrow>
          if current_chunk \<noteq> [] then chunks @ [flush current_chunk] else chunks)"

section \<open>The rate limiter\<close>

text \<open>
  The class \<open>RateLimit\<close>. Its timestamps are the readings of
  \<open>datetime.now().timestamp()\<close>, seconds as a number, modelled as reals with exact
  arithmetic; \<open>is_allowed\<close> takes the reading of the clock as its argument \<open>now\<close> and returns
  the boolean together with the updated object.
\<close>

record RateLimit =
  max_requests :: int
  time_window :: int
  requests :: "real list"

definition RateLimit_init :: "int \<Rightarrow> int \<Rightarrow> RateLimit" where
  "RateLimit_init mr tw = \<lparr>max_requests = mr, time_window = tw, requests = []\<rparr>"

definition purge :: "RateLimit \<Rightarrow> real \<Rightarrow> real list" where
  "purge self now = filter (\<lambda>req. now - req < real_of_int (time_window self)) (requests self)"

definition is_allowed :: "RateLimit \<Rightarrow> real \<Rightarrow> bool \<times> RateLimit" where
  "is_allowed self now =
     (let self1 = self\<lparr>requests := purge self now\<rparr> in
      if int (length (requests self1)) \<ge> max_requests self1 then (False, self1)
      else (True, self1\<lparr>requests := requests self1 @ [now]\<rparr>))"

text \<open>A sequence of calls of \<open>is_allowed\<close>, one for each clock reading, from the left.\<close>

fun calls :: "RateLimit \<Rightarrow> real list \<Rightarrow> RateLimit" where
  "calls self [] = self"
| "calls self (now # nows) = calls (snd (is_allowed self now)) nows"

section \<open>Speech synthesis\<close>

text \<open>
  What is raised, by an external call or by \<open>text_to_speech\<close> itself: \<open>Exception m\<close> is an
  instance of \<open>Exception\<close> (or of a subclass) whose \<open>str\<close> is \<open>m\<close>; \<open>BaseException m\<close> is
  an instance of a \<open>BaseException\<close> that is not an \<open>Exception\<close> (\<open>KeyboardInterrupt\<close>,
  \<open>SystemExit\<close>), which \<open>except Exception\<close> does not catch. Both failures that
  \<open>text_to_speech\<close> raises itself are plain \<open>Exception\<close>s carrying a message.
\<close>

datatype error = Exception pystr | BaseException pystr

definition rate_limit_message :: pystr where
  "rate_limit_message = py ''Rate limit exceeded. Please try again later.''"

definition audio_error_message :: "pystr \<Rightarrow> pystr" where
  "audio_error_message e = py ''Error generating audio: '' @ e"

text \<open>
  The handler of the loop body, \<open>except Exception as e: raise Exception(f"Error generating
  audio: {str(e)}")\<close>: an \<open>Exception\<close> is caught and raised again wrapped, anything else
  passes through as it is.
\<close>

fun reraise :: "error \<Rightarrow> error" where
  "reraise (Exception e) = Exception (audio_error_message e)"
| "reraise (BaseException b) = BaseException b"

definition model_name :: pystr where
  "model_name = py ''eleven_monolingual_v1''"

text \<open>
  What \<open>text_to_speech\<close> does to the outside, in order: it consults the rate limiter (with
  the answer), reports progress \<open>(i + 1) / len(chunks)\<close> (numerator and denominator, with
  the exception if the call raised), calls the external \<open>generate\<close> on a chunk
  (with the exception it raised, or the audio it returned), and sleeps for
  half a second.
\<close>

datatype 'a event =
    Consult bool
  | Progress nat nat "error option"
  | Generate pystr "error + 'a"
  | Sleep

text \<open>
  The external collaborators are parameters. Each acts on a state of the outside world
  \<open>'w\<close>, so that the answer of the service may depend on everything that happened before:
  \<open>progress num den w\<close> is \<open>progress_bar.progress(num / den)\<close> and returns the
  exception it raised, if any; \<open>generate chunk voice model w\<close> is the speech service and
  returns the exception it raised (\<open>Inl\<close>) or the audio (\<open>Inr\<close>).
\<close>

type_synonym 'w progress_fn = "nat \<Rightarrow> nat \<Rightarrow> 'w \<Rightarrow> error option \<times> 'w"
type_synonym ('w, 'a) generate_fn = "pystr \<Rightarrow> pystr \<Rightarrow> pystr \<Rightarrow> 'w \<Rightarrow> (error + 'a) \<times> 'w"

text \<open>
  The loop \<open>for i, chunk in enumerate(chunks)\<close>: \<open>n\<close> is \<open>len(chunks)\<close>, \<open>i\<close> the index of
  the next chunk and \<open>audio_segments\<close> the list built so far. An \<open>Exception\<close> that the
  body raises is caught and raised again as \<open>Exception(f"Error generating audio:
  {str(e)}")\<close>; a \<open>BaseException\<close> that is not an \<open>Exception\<close> is not caught and leaves
  \<open>text_to_speech\<close> as it is. Either ends the loop. The result is the value returned or the exception, the outside world and the
  events in the order they happened.
\<close>

fun synth_loop ::
  "'w progress_fn \<Rightarrow> ('w, 'a) generate_fn \<Rightarrow> pystr \<Rightarrow> nat \<Rightarrow> nat \<Rightarrow> pystr list \<Rightarrow> 'a list \<Rightarrow> 'w
     \<Rightarrow> (error + 'a list) \<times> 'w \<times> 'a event list"
where
  "synth_loop progress generate voice n i [] audio_segments w = (Inr audio_segments, w, [])"
| "synth_loop progress generate voice n i (chunk # rest) audio_segments w =
     (case progress (i + 1) n w of
        (Some e, w1) \<Rightarrow>
          (Inl (reraise e), w1, [Progress (i + 1) n (Some e)])
      | (None, w1) \<Rightarrow>
          (case generate chunk voice model_name w1 of
             (Inl e, w2) \<Rightarrow>
               (Inl (reraise e), w2,
                [Progress (i + 1) n None, Generate chunk (Inl e)])
           | (Inr audio, w2) \<Rightarrow>
               (case synth_loop progress generate voice n (i + 1) rest
                       (audio_segments @ [audio]) w2 of
                  (r, w3, evs) \<Rightarrow>
                    (r, w3,
                     Progress (i + 1) n None # Generate chunk (Inr audio) # Sleep # evs))))"

record PDFAudioReader =
  api_key :: pystr
  rate_limiter :: RateLimit

text \<open>\<open>PDFAudioReader.__init__\<close>: ten requests an hour.\<close>

definition PDFAudioReader_init :: "pystr \<Rightarrow> PDFAudioReader" where
  "PDFAudioReader_init key = \<lparr>api_key = key, rate_limiter = RateLimit_init 10 3600\<rparr>"

text \<open>
  \<open>text_to_speech\<close>; \<open>now\<close> is the reading of the clock inside \<open>is_allowed\<close>. Besides the
  result it returns the reader (whose rate limiter has changed), the outside world and
  the events.
\<close>

definition text_to_speech ::
  "'w progress_fn \<Rightarrow> ('w, 'a) generate_fn \<Rightarrow> PDFAudioReader \<Rightarrow> real \<Rightarrow> pystr \<Rightarrow> pystr \<Rightarrow> 'w
     \<Rightarrow> (error + 'a list) \<times> PDFAudioReader \<times> 'w \<times> 'a event list"
where
  "text_to_speech progress generate self now text voice w =
     (case is_allowed (rate_limiter self) now of
        (False, rl) \<Rightarrow>
          (Inl (Exception rate_limit_message), self\<lparr>rate_limiter := rl\<rparr>, w, [Consult False])
      | (True, rl) \<Rightarrow>
          (let chunks = chunk_text text 2000 in
           case synth_loop progress generate voice (length chunks) 0 chunks [] w of
             (r, w', evs) \<Rightarrow> (r, self\<lparr>rate_limiter := rl\<rparr>, w', Consult True # evs)))"

text \<open>The events that consult the rate limiter, and the chunks sent to the speech service.\<close>

fun is_consult :: "'a event \<Rightarrow> bool" where
  "is_consult (Consult b) = True"
| "is_consult e = False"



section \<open>Notions used in the statements\<close>

text \<open>
  The sentences of a text as the specification describes them: newlines normalised to
  spaces, the text split on the delimiter, each piece trimmed, empty pieces dropped.
\<close>

definition sentences :: "pystr \<Rightarrow> pystr list" where
  "sentences text = filter (\<lambda>s. s \<noteq> []) (map strip (split_dot (replace_nl text)))"

text \<open>A string in which the delimiter (46, 32) does not occur.\<close>

fun no_sep :: "pystr \<Rightarrow> bool" where
  "no_sep [] = True"
| "no_sep [c] = True"
| "no_sep (c # d # cs) = (\<not> (c = 46 \<and> d = 32) \<and> no_sep (d # cs))"

text \<open>
  A text made of nothing but whitespace characters (newlines among them) and
  delimiters: every character is whitespace, or is a full stop followed by a space.
\<close>

fun only_blank :: "pystr \<Rightarrow> bool" where
  "only_blank [] = True"
| "only_blank [c] = is_space c"
| "only_blank (c # d # cs) =
     (if is_space c then only_blank (d # cs) else c = 46 \<and> d = 32 \<and> only_blank cs)"

text \<open>
  What the loop of \<open>chunk_text\<close> keeps true of its accumulator: \<open>current_length\<close> is 0
  while \<open>current_chunk\<close> is empty; afterwards the chunk that a flush would produce is at
  most one character longer than \<open>current_length\<close>, and \<open>current_length\<close> is within
  \<open>max_chars\<close> unless the accumulator holds a single sentence.
\<close>

definition acc_ok :: "int \<Rightarrow> pystr list \<Rightarrow> int \<Rightarrow> bool" where
  "acc_ok mc cur len \<longleftrightarrow>
     (if cur = [] then len = 0
      else int (length (flush cur)) \<le> len + 1 \<and> (len \<le> mc \<or> length cur = 1))"

text \<open>
  What holds of every group of sentences that is flushed as a chunk: the chunk has at
  most \<open>max_chars + 1\<close> characters, or the group is one sentence longer than \<open>max_chars\<close>.
\<close>

definition group_ok :: "int \<Rightarrow> pystr list \<Rightarrow> bool" where
  "group_ok mc g \<longleftrightarrow>
     int (length (flush g)) \<le> mc + 1 \<or> (length g = 1 \<and> mc < int (length (hd g)))"

text \<open>
  The rate limiter's timestamps are in nondecreasing order and none is later than the
  clock reading \<open>now\<close>.
\<close>

definition ordered_upto :: "RateLimit \<Rightarrow> real \<Rightarrow> bool" where
  "ordered_upto self now \<longleftrightarrow> sorted (requests self) \<and> (\<forall>t \<in> set (requests self). t \<le> now)"

subsection \<open>Inputs for the examples\<close>

text \<open>
  A text of two sentences, the first of 1999 letters \<open>a\<close>: with the fixed limit of 2000
  characters of \<open>text_to_speech\<close> it makes two chunks.
\<close>

definition long_sentence :: pystr where
  "long_sentence = replicate 1999 97"

definition two_chunk_text :: pystr where
  "two_chunk_text = long_sentence @ py ''. b''"



text \<open>
  Stand-ins for the outside: the world is the number of calls made to the speech service,
  an audio is stood for by the length of its chunk. \<open>silent_progress\<close> never raises;
  \<open>good_generate\<close> always answers; \<open>failing_generate\<close> answers the first call and raises
  an \<open>Exception\<close> on the second; \<open>interrupted_generate\<close> answers the first call and raises
  \<open>KeyboardInterrupt\<close>, which is not an \<open>Exception\<close>, on the second.
\<close>

definition silent_progress :: "nat progress_fn" where
  "silent_progress num den w = (None, w)"

definition good_generate :: "(nat, nat) generate_fn" where
  "good_generate chunk voice model w = (Inr (length chunk), Suc w)"



text \<open>A reader whose rate limiter admits one request an hour and already holds one.\<close>

definition exhausted_reader :: PDFAudioReader where
  "exhausted_reader =
     \<lparr>api_key = py ''key'',
      rate_limiter = \<lparr>max_requests = 1, time_window = 3600, requests = [0]\<rparr>\<rparr>"

text \<open>A fresh reader whose rate limiter admits one request an hour.\<close>

definition single_reader :: PDFAudioReader where
  "single_reader = \<lparr>api_key = py ''key'', rate_limiter = RateLimit_init 1 3600\<rparr>"

section \<open>Splitting and joining\<close>

lemma no_sep_append:
  "no_sep (xs @ ys) \<longleftrightarrow>
     no_sep xs \<and> no_sep ys \<and> \<not> (xs \<noteq> [] \<and> ys \<noteq> [] \<and> last xs = 46 \<and> hd ys = 32)"
proof (induction xs rule: no_sep.induct)
  case 1
  show ?case by simp
next
  case (2 c)
  show ?case by (cases ys) auto
next
  case (3 c d cs)
  then show ?case by auto
qed

lemma no_sep_dropWhile: "no_sep s \<Longrightarrow> no_sep (dropWhile P s)"
proof -
  assume "no_sep s"
  then have "no_sep (takeWhile P s @ dropWhile P s)" by simp
  then show ?thesis unfolding no_sep_append by blast
qed

lemma no_sep_rev_dropWhile_rev: "no_sep s \<Longrightarrow> no_sep (rev (dropWhile P (rev s)))"
proof -
  assume a: "no_sep s"
  have "s = rev (dropWhile P (rev s)) @ rev (takeWhile P (rev s))"
    by (metis rev_append rev_rev_ident takeWhile_dropWhile_id)
  with a have "no_sep (rev (dropWhile P (rev s)) @ rev (takeWhile P (rev s)))" by simp
  then show ?thesis unfolding no_sep_append by blast
qed

lemma no_sep_strip: "no_sep s \<Longrightarrow> no_sep (strip s)"
  unfolding strip_def by (intro no_sep_rev_dropWhile_rev no_sep_dropWhile)

text \<open>No piece of a split contains the delimiter.\<close>

lemma split_from_pieces:
  "no_sep (cur @ take 1 s) \<Longrightarrow> p \<in> set (split_from cur s) \<Longrightarrow> no_sep p"
proof (induction cur s rule: split_from.induct)
  case (1 cur)
  then show ?case by simp
next
  case (2 cur c)
  then show ?case by simp
next
  case (3 cur c d cs)
  show ?case
  proof (cases "c = 46 \<and> d = 32")
    case True
    from "3.prems"(1) have nc: "no_sep cur" by (simp add: no_sep_append)
    have "no_sep ([] @ take 1 cs)" by (cases cs) auto
    with "3.IH"(1)[OF True] have "p \<in> set (split_from [] cs) \<Longrightarrow> no_sep p" by blast
    with "3.prems"(2) True nc show ?thesis by auto
  next
    case False
    from "3.prems"(1) have "no_sep (cur @ [c])" by simp
    with False have "no_sep ((cur @ [c]) @ take 1 (d # cs))"
      by (auto simp: no_sep_append)
    with "3.IH"(2)[OF False] "3.prems"(2) False show ?thesis by auto
  qed
qed

lemma split_dot_pieces: "p \<in> set (split_dot s) \<Longrightarrow> no_sep p"
  unfolding split_dot_def
  by (rule split_from_pieces[of "[]" s]) (cases s, auto)

lemma sentences_no_sep: "s \<in> set (sentences t) \<Longrightarrow> no_sep s"
  by (auto simp: sentences_def intro: no_sep_strip split_dot_pieces)

lemma split_from_no_sep: "no_sep s \<Longrightarrow> split_from cur s = [cur @ s]"
  by (induction cur s rule: split_from.induct) auto

lemma split_from_sep:
  "no_sep s \<Longrightarrow> split_from cur (s @ 46 # 32 # rest) = (cur @ s) # split_from [] rest"
proof (induction s arbitrary: cur rule: no_sep.induct)
  case 1
  show ?case by simp
next
  case (2 c)
  show ?case by simp
next
  case (3 c d cs)
  from "3.prems" have "no_sep (d # cs)" and n: "\<not> (c = 46 \<and> d = 32)" by auto
  from "3.IH"[OF this(1), of "cur @ [c]"] n show ?case by simp
qed

text \<open>Splitting undoes joining, for sentences free of the delimiter.\<close>

lemma split_join:
  "g \<noteq> [] \<Longrightarrow> (\<forall>s \<in> set g. no_sep s) \<Longrightarrow> split_dot (join_dot g) = g"
proof (induction g rule: join_dot.induct)
  case 1
  then show ?case by simp
next
  case (2 x)
  then show ?case by (simp add: split_dot_def split_from_no_sep)
next
  case (3 x y ys)
  then have "split_dot (join_dot (y # ys)) = y # ys" by simp
  with "3.prems" show ?case by (simp add: split_dot_def split_from_sep)
qed

lemma butlast_flush: "butlast (flush g) = join_dot g"
  by (simp add: flush_def butlast_append)

lemma flush_ends: "flush g \<noteq> [] \<and> last (flush g) = 46"
  by (simp add: flush_def)

lemma length_join_snoc:
  "length (join_dot (xs @ [s])) =
     (if xs = [] then length s else length (join_dot xs) + 2 + length s)"
  by (induction xs rule: join_dot.induct) auto

section \<open>The chunks are the sentences, grouped\<close>

lemma acc_ok_group: "acc_ok mc cur len \<Longrightarrow> cur \<noteq> [] \<Longrightarrow> group_ok mc cur"
proof -
  assume a: "acc_ok mc cur len" and ne: "cur \<noteq> []"
  show ?thesis
  proof (cases "len \<le> mc")
    case True
    with a ne show ?thesis by (simp add: acc_ok_def group_ok_def)
  next
    case False
    with a ne have "length cur = 1" by (simp add: acc_ok_def)
    then obtain s where "cur = [s]" by (cases cur) auto
    then show ?thesis by (auto simp: group_ok_def flush_def)
  qed
qed

lemma acc_ok_append:
  "acc_ok mc cur len \<Longrightarrow> len + int (length s) + 2 \<le> mc
     \<Longrightarrow> acc_ok mc (cur @ [s]) (len + int (length s) + 2)"
  by (auto simp: acc_ok_def flush_def length_join_snoc split: if_splits)

lemma acc_ok_single: "acc_ok mc [s] (int (length s))"
  by (simp add: acc_ok_def flush_def)

text \<open>
  The loop appends to \<open>chunks\<close> the flushes of non-empty groups of consecutive sentences;
  the groups and the accumulator together hold the sentences read so far, in order.
\<close>

lemma chunk_loop_groups:
  "acc_ok mc cur len \<Longrightarrow>
   \<exists>groups cur' len'.
     chunk_loop mc ss chunks cur len = (chunks @ map flush groups, cur', len') \<and>
     [] \<notin> set groups \<and> (\<forall>g \<in> set groups. group_ok mc g) \<and> acc_ok mc cur' len' \<and>
     concat groups @ cur' = cur @ filter (\<lambda>s. s \<noteq> []) (map strip ss)"
proof (induction ss arbitrary: chunks cur len)
  case Nil
  then show ?case by (intro exI[of _ "[]"] exI[of _ cur] exI[of _ len]) simp
next
  case (Cons s0 ss)
  let ?s = "strip s0"
  show ?case
  proof (cases "?s = []")
    case True
    with Cons.IH[OF Cons.prems, of chunks] show ?thesis by (simp add: Let_def)
  next
    case ne: False
    show ?thesis
    proof (cases "len + int (length ?s) + 2 \<le> mc")
      case True
      from Cons.IH[OF acc_ok_append[OF Cons.prems True], of chunks] ne True
      show ?thesis by (simp add: Let_def)
    next
      case False
      show ?thesis
      proof (cases "cur = []")
        case True
        from Cons.IH[OF acc_ok_single, of chunks ?s] ne False True
        show ?thesis by (simp add: Let_def)
      next
        case cne: False
        from Cons.IH[OF acc_ok_single, of "chunks @ [flush cur]" ?s]
        obtain groups cur' len' where
          h: "chunk_loop mc ss (chunks @ [flush cur]) [?s] (int (length ?s)) =
                ((chunks @ [flush cur]) @ map flush groups, cur', len')"
             "[] \<notin> set groups" "\<forall>g \<in> set groups. group_ok mc g" "acc_ok mc cur' len'"
             "concat groups @ cur' = [?s] @ filter (\<lambda>s. s \<noteq> []) (map strip ss)"
          by blast
        have "chunk_loop mc (s0 # ss) chunks cur len =
                (chunks @ map flush (cur # groups), cur', len')"
          using ne False cne h(1) by (simp add: Let_def)
        moreover have "[] \<notin> set (cur # groups)" using cne h(2) by auto
        moreover have "\<forall>g \<in> set (cur # groups). group_ok mc g"
          using h(3) acc_ok_group[OF Cons.prems cne] by simp
        moreover have "concat (cur # groups) @ cur' =
                         cur @ filter (\<lambda>s. s \<noteq> []) (map strip (s0 # ss))"
          using h(5) ne by simp
        ultimately show ?thesis using h(4) by blast
      qed
    qed
  qed
qed

lemma chunk_text_groups:
  "\<exists>groups. chunk_text t mc = map flush groups \<and> [] \<notin> set groups \<and>
     (\<forall>g \<in> set groups. group_ok mc g) \<and> concat groups = sentences t"
proof -
  have "acc_ok mc [] 0" by (simp add: acc_ok_def)
  from chunk_loop_groups[OF this, of "split_dot (replace_nl t)" "[]"]
  obtain groups cur' len' where
    h: "chunk_loop mc (split_dot (replace_nl t)) [] [] 0 = (map flush groups, cur', len')"
       "[] \<notin> set groups" "\<forall>g \<in> set groups. group_ok mc g" "acc_ok mc cur' len'"
       "concat groups @ cur' = sentences t"
    by (auto simp: sentences_def)
  show ?thesis
  proof (cases "cur' = []")
    case True
    with h show ?thesis by (auto simp: chunk_text_def)
  next
    case False
    have "chunk_text t mc = map flush (groups @ [cur'])"
      using h(1) False by (simp add: chunk_text_def)
    moreover have "[] \<notin> set (groups @ [cur'])" using h(2) False by auto
    moreover have "\<forall>g \<in> set (groups @ [cur']). group_ok mc g"
      using h(3) acc_ok_group[OF h(4) False] by simp
    moreover have "concat (groups @ [cur']) = sentences t" using h(5) by simp
    ultimately show ?thesis by blast
  qed
qed

section \<open>Properties of the chunker\<close>

text \<open>
  Claim C9. \<open>chunk_text\<close> applied to the empty string returns the empty list of
  chunks, whatever \<open>max_chars\<close> is.
\<close>

theorem chunk_text_empty: "chunk_text [] max_chars = []"
  by (simp add: chunk_text_def split_dot_def replace_nl_def strip_def)

text \<open>
  Claim C2. The specification's example expects the chunks \<open>Hello world.\<close>,
  \<open>This is a test.\<close> and \<open>Short.\<close>. The split leaves the last sentence its own full
  stop, and the flush appends another: the code returns \<open>Short..\<close> as the third chunk.
\<close>

theorem chunk_text_example_double_period:
  "chunk_text (py ''Hello world. This is a test. Short.'') 15 =
     [py ''Hello world.'', py ''This is a test.'', py ''Short..'']"
  by code_simp

text \<open>
  Claim C1. With \<open>max_chars = 10\<close> the text \<open>abcd. efgh. ijkl\<close> has the three sentences
  \<open>abcd\<close>, \<open>efgh\<close>, \<open>ijkl\<close> of four characters each, and the code returns the chunks
  \<open>abcd.\<close> and \<open>efgh. ijkl.\<close>: the second is made of two sentences and has 11
  characters. (When the accumulator is restarted, \<open>current_length\<close> is set to the length
  of the sentence alone, and the final full stop is never counted.)
\<close>

theorem chunk_text_exceeds_max_chars:
  "chunk_text (py ''abcd. efgh. ijkl'') 10 = [py ''abcd.'', py ''efgh. ijkl.''] \<and>
   sentences (py ''abcd. efgh. ijkl'') = [py ''abcd'', py ''efgh'', py ''ijkl''] \<and>
   length (py ''efgh. ijkl.'') = 11"
  by code_simp

text \<open>
  What the code does guarantee: a chunk has at most \<open>max_chars + 1\<close> characters, unless
  it is a single sentence longer than \<open>max_chars\<close> followed by a full stop.
\<close>

lemma chunk_text_length_bound:
  assumes "c \<in> set (chunk_text t mc)"
  shows "int (length c) \<le> mc + 1 \<or>
         (\<exists>s \<in> set (sentences t). c = s @ [46] \<and> mc < int (length s))"
proof -
  obtain groups where g: "chunk_text t mc = map flush groups"
     "\<forall>g \<in> set groups. group_ok mc g" "concat groups = sentences t"
    using chunk_text_groups by blast
  with assms obtain g where gg: "g \<in> set groups" "c = flush g" by auto
  with g(2) have ok: "group_ok mc g" by simp
  show ?thesis
  proof (cases "int (length c) \<le> mc + 1")
    case True
    then show ?thesis by simp
  next
    case False
    with ok gg(2) have "length g = 1" "mc < int (length (hd g))"
      by (auto simp: group_ok_def)
    then obtain s where s: "g = [s]" "mc < int (length s)" by (cases g) auto
    with gg(1) have "s \<in> set (concat groups)" by force
    with g(3) s gg(2) show ?thesis by (auto simp: flush_def)
  qed
qed

text \<open>
  Claim C4. Take the chunks in order; from each remove the appended final full stop
  (\<open>butlast\<close>) and split what is left at the restored separators: together this gives
  exactly the sentences of the text, that is the non-empty trimmed pieces of the text
  with its newlines turned into spaces and split at the delimiter, in their order.
\<close>

theorem chunk_text_preserves_sentences:
  "concat (map (\<lambda>c. split_dot (butlast c)) (chunk_text t max_chars)) = sentences t"
proof -
  obtain groups where g: "chunk_text t max_chars = map flush groups" "[] \<notin> set groups"
     "concat groups = sentences t"
    using chunk_text_groups by blast
  have ns: "\<forall>g \<in> set groups. \<forall>s \<in> set g. no_sep s"
  proof (intro ballI)
    fix g s assume "g \<in> set groups" "s \<in> set g"
    then have "s \<in> set (concat groups)" by auto
    with g(3) show "no_sep s" by (simp add: sentences_no_sep)
  qed
  have "map (\<lambda>c. split_dot (butlast c)) (map flush groups) = groups"
  proof -
    have "\<forall>g \<in> set groups. split_dot (butlast (flush g)) = g"
      using ns g(2) by (auto simp: butlast_flush intro!: split_join)
    then show ?thesis by (simp add: map_idI)
  qed
  with g show ?thesis by simp
qed

lemma is_space_replace: "is_space (if c = 10 then 32 else c) = is_space c"
  by (simp add: is_space_def)

lemma only_blank_replace_nl: "only_blank s \<Longrightarrow> only_blank (replace_nl s)"
proof (induction s rule: only_blank.induct)
  case 1
  then show ?case by (simp add: replace_nl_def)
next
  case (2 c)
  then show ?case by (simp add: replace_nl_def is_space_replace)
next
  case (3 c d cs)
  show ?case
  proof (cases "is_space c")
    case True
    with 3 have "only_blank (replace_nl (d # cs))" by simp
    with True show ?thesis by (simp add: replace_nl_def is_space_replace)
  next
    case False
    with "3.prems" have h: "c = 46" "d = 32" "only_blank cs" by auto
    with "3.IH"(2) False have "only_blank (replace_nl cs)" by simp
    with h False show ?thesis by (simp add: replace_nl_def is_space_def)
  qed
qed

lemma split_from_blank:
  "only_blank s \<Longrightarrow> \<forall>c \<in> set cur. is_space c \<Longrightarrow> p \<in> set (split_from cur s)
     \<Longrightarrow> \<forall>c \<in> set p. is_space c"
proof (induction cur s rule: split_from.induct)
  case (1 cur)
  then show ?case by simp
next
  case (2 cur c)
  then show ?case by auto
next
  case (3 cur c d cs)
  show ?case
  proof (cases "c = 46 \<and> d = 32")
    case True
    then have ns: "\<not> is_space c" by (simp add: is_space_def)
    with "3.prems"(1) have "only_blank cs" by simp
    with "3.IH"(1)[OF True]
    have "p \<in> set (split_from [] cs) \<Longrightarrow> \<forall>c \<in> set p. is_space c" by simp
    with "3.prems"(2,3) True show ?thesis by auto
  next
    case False
    with "3.prems"(1) have sp: "is_space c" and ob: "only_blank (d # cs)"
      by (auto split: if_splits)
    from sp "3.prems"(2) have "\<forall>x \<in> set (cur @ [c]). is_space x" by auto
    with "3.IH"(2)[OF False ob] "3.prems"(3) False show ?thesis by simp
  qed
qed

lemma strip_blank: "\<forall>c \<in> set p. is_space c \<Longrightarrow> strip p = []"
proof -
  assume "\<forall>c \<in> set p. is_space c"
  then have "dropWhile is_space p = []" by simp
  then show ?thesis unfolding strip_def by (simp only: rev.simps dropWhile.simps)
qed

lemma chunk_loop_skip:
  "\<forall>s \<in> set ss. strip s = [] \<Longrightarrow> chunk_loop mc ss chunks cur len = (chunks, cur, len)"
  by (induction ss) (auto simp: Let_def)

lemma chunk_text_only_blank: "only_blank t \<Longrightarrow> chunk_text t mc = []"
proof -
  assume "only_blank t"
  then have ob: "only_blank (replace_nl t)" by (rule only_blank_replace_nl)
  have "\<forall>s \<in> set (split_dot (replace_nl t)). strip s = []"
  proof
    fix s assume "s \<in> set (split_dot (replace_nl t))"
    then have "\<forall>c \<in> set s. is_space c"
      unfolding split_dot_def using split_from_blank[OF ob, of "[]" s] by simp
    then show "strip s = []" by (rule strip_blank)
  qed
  then show ?thesis by (simp add: chunk_text_def chunk_loop_skip)
qed

text \<open>
  Claim C10. Every chunk returned by \<open>chunk_text\<close> is a non-empty string whose last
  character is the full stop (code point 46); and a text made only of whitespace,
  newlines and delimiters, all of whose sentences trim to the empty string, gives no
  chunk at all.
\<close>

theorem chunk_text_chunks_end_in_period:
  "(\<forall>c \<in> set (chunk_text t max_chars). c \<noteq> [] \<and> last c = 46) \<and>
   (only_blank t \<longrightarrow> chunk_text t max_chars = [])"
proof (intro conjI ballI impI)
  fix c assume c: "c \<in> set (chunk_text t max_chars)"
  obtain groups where "chunk_text t max_chars = map flush groups"
    using chunk_text_groups by blast
  with c obtain g where g: "c = flush g" by auto
  from g show "c \<noteq> []" by (simp add: flush_ends)
  from g show "last c = 46" by (simp add: flush_ends)
next
  assume "only_blank t"
  then show "chunk_text t max_chars = []" by (rule chunk_text_only_blank)
qed

theorem chunk_text_chunks_end_in_period_witness:
  "py ''ab. cd.'' \<in> set (chunk_text (py ''ab. cd'') 10) \<and>
   py ''ab. cd.'' \<noteq> [] \<and> last (py ''ab. cd.'') = 46 \<and>
   only_blank [32, 10, 46, 32, 9, 46, 32, 10] \<and>
   chunk_text [32, 10, 46, 32, 9, 46, 32, 10] 10 = []"
proof -
  have m: "py ''ab. cd.'' \<in> set (chunk_text (py ''ab. cd'') 10)" by code_simp
  have b: "only_blank [32, 10, 46, 32, 9, 46, 32, 10]" by (simp add: is_space_def)
  note thm1 = chunk_text_chunks_end_in_period[of "py ''ab. cd''" 10]
  note thm2 = chunk_text_chunks_end_in_period[of "[32, 10, 46, 32, 9, 46, 32, 10]" 10]
  from thm1 m have c: "py ''ab. cd.'' \<noteq> [] \<and> last (py ''ab. cd.'') = 46" by blast
  from thm2 b have d: "chunk_text [32, 10, 46, 32, 9, 46, 32, 10] 10 = []" by blast
  from m c b d show ?thesis by blast
qed

section \<open>Properties of the rate limiter\<close>

text \<open>
  Claim C3. For a \<open>RateLimit\<close> created with \<open>max_requests = 2\<close> and \<open>time_window = 10\<close>:
  two calls in succession (at clock readings \<open>t0 \<le> t1\<close>) both return true; a third call
  at \<open>t2\<close>, less than 10 seconds after the first, returns false; and a further call at
  \<open>t3\<close>, 10 seconds or more after the first admission, returns true. The comparison is
  strict: at exactly 10 seconds the first timestamp no longer counts.
\<close>

theorem rate_limit_example:
  assumes "t0 \<le> t1" and "t1 \<le> t2" and "t2 - t0 < 10" and "10 \<le> t3 - t0"
  shows "fst (is_allowed (RateLimit_init 2 10) t0) \<and>
         fst (is_allowed (calls (RateLimit_init 2 10) [t0]) t1) \<and>
         \<not> fst (is_allowed (calls (RateLimit_init 2 10) [t0, t1]) t2) \<and>
         fst (is_allowed (calls (RateLimit_init 2 10) [t0, t1, t2]) t3)"
  using assms by (simp add: is_allowed_def RateLimit_init_def purge_def Let_def)

theorem rate_limit_example_witness:
  "(100 :: real) \<le> 100 \<and> (100 :: real) - 100 < 10 \<and> (10 :: real) \<le> 110 - 100 \<and>
   fst (is_allowed (RateLimit_init 2 10) 100) \<and>
   fst (is_allowed (calls (RateLimit_init 2 10) [100]) 100) \<and>
   \<not> fst (is_allowed (calls (RateLimit_init 2 10) [100, 100]) 100) \<and>
   fst (is_allowed (calls (RateLimit_init 2 10) [100, 100, 100]) 110)"
proof -
  have h1: "(100 :: real) \<le> 100" by simp
  have h2: "(100 :: real) - 100 < 10" by simp
  have h3: "(10 :: real) \<le> 110 - 100" by simp
  note c = rate_limit_example[OF h1 h1 h2 h3]
  from h1 h2 h3 c show ?thesis by blast
qed

text \<open>
  Claim C8. Whenever \<open>is_allowed\<close> returns false nothing is appended: the stored
  timestamps are then exactly the old ones without those aged \<open>time_window\<close> or more.
  Every call leaves \<open>max_requests\<close> and \<open>time_window\<close> as they were. The check has no
  failing branch: it returns a boolean and the updated object for every input.
\<close>

theorem is_allowed_denied_frame:
  "(\<not> fst (is_allowed self now) \<longrightarrow>
      requests (snd (is_allowed self now)) =
        filter (\<lambda>req. \<not> real_of_int (time_window self) \<le> now - req) (requests self)) \<and>
   max_requests (snd (is_allowed self now)) = max_requests self \<and>
   time_window (snd (is_allowed self now)) = time_window self"
  by (simp add: is_allowed_def purge_def Let_def not_le)

theorem is_allowed_denied_frame_witness:
  "\<not> fst (is_allowed \<lparr>max_requests = 2, time_window = 10, requests = [0, 3, 5]\<rparr> 12) \<and>
   requests (snd (is_allowed \<lparr>max_requests = 2, time_window = 10, requests = [0, 3, 5]\<rparr> 12))
     = [3, 5]"
proof -
  let ?r = "\<lparr>max_requests = 2, time_window = 10, requests = [0, 3, 5]\<rparr>"
  have d: "\<not> fst (is_allowed ?r 12)"
    by (simp add: is_allowed_def purge_def Let_def)
  have f: "filter (\<lambda>req. \<not> real_of_int (time_window ?r) \<le> 12 - req) (requests ?r) = [3, 5]"
    by simp
  from is_allowed_denied_frame[of ?r 12] d
  have g: "requests (snd (is_allowed ?r 12)) =
          filter (\<lambda>req. \<not> real_of_int (time_window ?r) \<le> 12 - req) (requests ?r)"
    by blast
  from g f have e: "requests (snd (is_allowed ?r 12)) = [3, 5]" by (rule trans)
  from d e show ?thesis by (rule conjI)
qed

lemma sorted_filter_real: "sorted xs \<Longrightarrow> sorted (filter P xs)" for xs :: "real list"
  by (induction xs) auto

lemma ordered_upto_step:
  "ordered_upto self now0 \<Longrightarrow> now0 \<le> now \<Longrightarrow> ordered_upto (snd (is_allowed self now)) now"
  unfolding ordered_upto_def
  by (auto simp: is_allowed_def purge_def Let_def sorted_append sorted_filter_real)

lemma time_window_step: "time_window (snd (is_allowed self now)) = time_window self"
  by (simp add: is_allowed_def purge_def Let_def)

lemma time_window_calls: "time_window (calls self nows) = time_window self"
  by (induction nows arbitrary: self) (auto simp: time_window_step)

lemma calls_snoc: "calls self (nows @ [now]) = snd (is_allowed (calls self nows) now)"
  by (induction nows arbitrary: self) auto

lemma within_window_step:
  "0 < time_window self \<or> \<not> fst (is_allowed self now)
     \<Longrightarrow> t \<in> set (requests (snd (is_allowed self now)))
     \<Longrightarrow> now - t < real_of_int (time_window self)"
  by (auto simp: is_allowed_def purge_def Let_def split: if_splits)

lemma ordered_upto_calls:
  "ordered_upto self now0 \<Longrightarrow> sorted (now0 # nows)
     \<Longrightarrow> ordered_upto (calls self nows) (last (now0 # nows))"
proof (induction nows arbitrary: self now0)
  case Nil
  then show ?case by simp
next
  case (Cons a nows)
  from Cons.prems have "ordered_upto (snd (is_allowed self a)) a"
    by (auto intro: ordered_upto_step)
  moreover from Cons.prems have "sorted (a # nows)" by simp
  ultimately have "ordered_upto (calls (snd (is_allowed self a)) nows) (last (a # nows))"
    by (rule Cons.IH)
  then show ?case by simp
qed

lemma sorted_calls:
  "sorted nows \<Longrightarrow> sorted (requests (calls (RateLimit_init mr tw) nows))"
proof (cases nows)
  case Nil
  then show ?thesis by (simp add: RateLimit_init_def)
next
  case (Cons n0 ns)
  assume "sorted nows"
  with Cons have s: "sorted (n0 # nows)" by simp
  have "ordered_upto (RateLimit_init mr tw) n0"
    by (simp add: ordered_upto_def RateLimit_init_def)
  from ordered_upto_calls[OF this s] show ?thesis by (simp add: ordered_upto_def)
qed

text \<open>
  Claim C7, as stated, fails for a window that is not positive: a limiter created with
  \<open>max_requests = 1\<close> and \<open>time_window = 0\<close> admits a call at clock reading 0 and stores
  that reading, whose age 0 is not below the window 0.
\<close>

theorem is_allowed_window_zero_counterexample:
  "fst (is_allowed (RateLimit_init 1 0) 0) \<and>
   requests (snd (is_allowed (RateLimit_init 1 0) 0)) = [0] \<and>
   \<not> (0 - 0 < real_of_int (time_window (snd (is_allowed (RateLimit_init 1 0) 0))))"
  by (simp add: is_allowed_def purge_def RateLimit_init_def Let_def)

text \<open>
  Claim C7, amended. After a call of \<open>is_allowed\<close> at clock reading \<open>now\<close> on a limiter
  used from its creation at nondecreasing clock readings, the stored timestamps are in
  nondecreasing order. After a call of \<open>is_allowed\<close> at clock reading \<open>now\<close> in any state,
  provided \<open>time_window\<close> is positive or the call returned false, every stored timestamp
  \<open>t\<close> satisfies \<open>now - t < time_window\<close>.
\<close>

theorem is_allowed_invariant:
  "(sorted (nows @ [now]) \<longrightarrow>
      sorted (requests (calls (RateLimit_init mr tw) (nows @ [now])))) \<and>
   (0 < time_window self \<or> \<not> fst (is_allowed self now) \<longrightarrow>
      (\<forall>t \<in> set (requests (snd (is_allowed self now))).
         now - t < real_of_int (time_window self)))"
proof (intro conjI impI ballI)
  assume "sorted (nows @ [now])"
  then show "sorted (requests (calls (RateLimit_init mr tw) (nows @ [now])))"
    by (rule sorted_calls)
next
  fix t
  assume "0 < time_window self \<or> \<not> fst (is_allowed self now)"
    and "t \<in> set (requests (snd (is_allowed self now)))"
  then show "now - t < real_of_int (time_window self)"
    by (rule within_window_step)
qed

theorem is_allowed_invariant_witness:
  "sorted ([0, 3, 5] @ [11 :: real]) \<and>
   sorted (requests (calls (RateLimit_init 2 10) ([0, 3, 5] @ [11]))) \<and>
   0 < time_window (calls (RateLimit_init 2 10) [0, 3, 5]) \<and>
   requests (snd (is_allowed (calls (RateLimit_init 2 10) [0, 3, 5]) 11)) = [3, 11] \<and>
   11 - (3 :: real) < real_of_int (time_window (calls (RateLimit_init 2 10) [0, 3, 5])) \<and>
   \<not> fst (is_allowed \<lparr>max_requests = 1, time_window = 0, requests = [5]\<rparr> 3) \<and>
   requests (snd (is_allowed \<lparr>max_requests = 1, time_window = 0, requests = [5]\<rparr> 3)) = [5] \<and>
   3 - (5 :: real) < real_of_int (time_window \<lparr>max_requests = 1, time_window = 0, requests = [5]\<rparr>)"
proof -
  let ?s = "calls (RateLimit_init 2 10) [0, 3, 5]"
  let ?z = "\<lparr>max_requests = 1, time_window = 0, requests = [5]\<rparr>"
  have h: "sorted ([0, 3, 5] @ [11 :: real])" by simp
  have p: "0 < time_window ?s" by (simp add: time_window_step RateLimit_init_def)
  have r: "requests (snd (is_allowed ?s 11)) = [3, 11]"
    by (simp add: is_allowed_def purge_def RateLimit_init_def Let_def)
  then have m: "3 \<in> set (requests (snd (is_allowed ?s 11)))" by simp
  have d: "\<not> fst (is_allowed ?z 3)" by (simp add: is_allowed_def purge_def Let_def)
  have q: "requests (snd (is_allowed ?z 3)) = [5]"
    by (simp add: is_allowed_def purge_def Let_def)
  then have n: "5 \<in> set (requests (snd (is_allowed ?z 3)))" by simp
  note c1 = is_allowed_invariant[of "[0, 3, 5]" 11 2 10 ?s]
  note c2 = is_allowed_invariant[of "[]" 3 1 0 ?z]
  from c1 h have s: "sorted (requests (calls (RateLimit_init 2 10) ([0, 3, 5] @ [11])))"
    by blast
  from c1 p m have w: "11 - (3 :: real) < real_of_int (time_window ?s)" by blast
  from c2 d n have v: "3 - (5 :: real) < real_of_int (time_window ?z)" by blast
  from h s p r w d q v show ?thesis by blast
qed

section \<open>Properties of the speech synthesis\<close>

text \<open>The synthesis loop never consults the rate limiter.\<close>

lemma synth_loop_no_consult:
  "synth_loop progress generate voice n i chunks segs w = (res, w', evs)
     \<Longrightarrow> filter is_consult evs = []"
proof (induction chunks arbitrary: i segs w res w' evs)
  case Nil
  then show ?case by simp
next
  case (Cons chunk rest)
  show ?case
  proof (cases "progress (i + 1) n w")
    case p: (Pair pr w1)
    show ?thesis
    proof (cases pr)
      case (Some e)
      with p Cons.prems show ?thesis by auto
    next
      case None
      show ?thesis
      proof (cases "generate chunk voice model_name w1")
        case g: (Pair gr w2)
        show ?thesis
        proof (cases gr)
          case (Inl e)
          with p None g Cons.prems show ?thesis by auto
        next
          case (Inr audio)
          obtain r w3 evs3 where
            l: "synth_loop progress generate voice n (i + 1) rest (segs @ [audio]) w2
                  = (r, w3, evs3)"
            by (metis prod_cases3)
          from Cons.IH[OF l] have "filter is_consult evs3 = []" .
          with p None g Inr l Cons.prems show ?thesis by auto
        qed
      qed
    qed
  qed
qed






subsection \<open>The example text\<close>

lemma no_sep_replicate: "c \<noteq> 46 \<Longrightarrow> no_sep (replicate n c)"
proof (induction n)
  case 0
  show ?case by simp
next
  case (Suc n)
  then show ?case by (cases n) auto
qed

lemma long_sentence_facts:
  "no_sep long_sentence" "length long_sentence = 1999" "strip long_sentence = long_sentence"
  "replace_nl long_sentence = long_sentence" "long_sentence \<noteq> []"
  unfolding long_sentence_def
      apply (rule no_sep_replicate, simp)
     apply simp
    apply (simp add: strip_def is_space_def dropWhile_replicate)
   apply (simp add: replace_nl_def)
  apply (simp add: replicate_empty)
  done



lemma strip_b: "strip [98] = [98]"
  by (simp add: strip_def is_space_def)

lemma two_chunk_sentences:
  "split_dot (replace_nl two_chunk_text) = [long_sentence, [98]]"
proof -
  have "replace_nl two_chunk_text = long_sentence @ 46 # 32 # [98]"
    using long_sentence_facts(4) by (simp add: two_chunk_text_def replace_nl_def py_def)
  then show ?thesis
    by (simp add: split_dot_def split_from_sep long_sentence_facts(1))
qed

lemma chunk_text_two_chunks:
  "chunk_text two_chunk_text 2000 = [long_sentence @ [46], [98, 46]]"
  by (simp add: chunk_text_def two_chunk_sentences long_sentence_facts strip_b Let_def
      flush_def)



lemma exhausted_run:
  "text_to_speech silent_progress good_generate exhausted_reader 60 two_chunk_text
     (py ''Rachel'') 0 =
   (Inl (Exception rate_limit_message), exhausted_reader, 0, [Consult False])"
  by (simp add: text_to_speech_def exhausted_reader_def is_allowed_def purge_def Let_def)

lemma single_run:
  "text_to_speech silent_progress good_generate single_reader 0 two_chunk_text
     (py ''Rachel'') 0 =
   (Inr [2000, 2],
    single_reader\<lparr>rate_limiter := \<lparr>max_requests = 1, time_window = 3600, requests = [0]\<rparr>\<rparr>,
    2,
    [Consult True,
     Progress 1 2 None, Generate (long_sentence @ [46]) (Inr 2000), Sleep,
     Progress 2 2 None, Generate [98, 46] (Inr 2), Sleep])"
  by (simp add: text_to_speech_def single_reader_def is_allowed_def purge_def Let_def
      RateLimit_init_def chunk_text_two_chunks silent_progress_def good_generate_def
      long_sentence_facts(2))



subsection \<open>The rate limiter in \<open>text_to_speech\<close>\<close>

text \<open>
  Claim C5. \<open>text_to_speech\<close> consults the rate limiter exactly once, and first: the
  reader's limiter afterwards is the one a single call of \<open>is_allowed\<close> leaves, the first
  event is that consultation and no other event is one. If the answer is false the call
  raises the rate-limit exception, nothing else has happened and the outside world is
  untouched. If the answer is true the rest of the run is the synthesis loop over all
  the chunks of the text, in which the rate limiter has no part.
\<close>

theorem text_to_speech_consults_once:
  assumes "text_to_speech progress generate self now t voice w = (res, self', w', evs)"
  shows "self' = self\<lparr>rate_limiter := snd (is_allowed (rate_limiter self) now)\<rparr> \<and>
         hd evs = Consult (fst (is_allowed (rate_limiter self) now)) \<and>
         filter is_consult evs = [Consult (fst (is_allowed (rate_limiter self) now))] \<and>
         (\<not> fst (is_allowed (rate_limiter self) now) \<longrightarrow>
            res = Inl (Exception rate_limit_message) \<and> evs = [Consult False] \<and> w' = w) \<and>
         (fst (is_allowed (rate_limiter self) now) \<longrightarrow>
            (res, w', tl evs) =
              synth_loop progress generate voice (length (chunk_text t 2000)) 0
                (chunk_text t 2000) [] w)"
proof (cases "is_allowed (rate_limiter self) now")
  case (Pair ok rl)
  show ?thesis
  proof (cases ok)
    case False
    with Pair assms show ?thesis by (auto simp: text_to_speech_def)
  next
    case True
    let ?chunks = "chunk_text t 2000"
    obtain r w3 evs3 where
      l: "synth_loop progress generate voice (length ?chunks) 0 ?chunks [] w = (r, w3, evs3)"
      by (metis prod_cases3)
    with Pair True assms have e: "res = r" "evs = Consult True # evs3" "w' = w3"
       "self' = self\<lparr>rate_limiter := rl\<rparr>"
      by (auto simp: text_to_speech_def Let_def)
    from synth_loop_no_consult[OF l] e l Pair True show ?thesis by simp
  qed
qed

theorem text_to_speech_consults_once_witness:
  "text_to_speech silent_progress good_generate exhausted_reader 60 two_chunk_text
     (py ''Rachel'') 0 =
   (Inl (Exception rate_limit_message), exhausted_reader, 0, [Consult False]) \<and>
   \<not> fst (is_allowed (rate_limiter exhausted_reader) 60) \<and>
   [Consult False :: nat event] = [Consult False] \<and>
   text_to_speech silent_progress good_generate single_reader 0 two_chunk_text
     (py ''Rachel'') 0 =
   (Inr [2000, 2],
    single_reader\<lparr>rate_limiter := \<lparr>max_requests = 1, time_window = 3600, requests = [0]\<rparr>\<rparr>,
    2,
    [Consult True,
     Progress 1 2 None, Generate (long_sentence @ [46]) (Inr 2000), Sleep,
     Progress 2 2 None, Generate [98, 46] (Inr 2), Sleep]) \<and>
   fst (is_allowed (rate_limiter single_reader) 0) \<and>
   filter is_consult
    [Consult True,
     Progress 1 2 None, Generate (long_sentence @ [46]) (Inr (2000 :: nat)), Sleep,
     Progress 2 2 None, Generate [98, 46] (Inr 2), Sleep] =
   [Consult (fst (is_allowed (rate_limiter single_reader) 0))]"
proof -
  have d: "\<not> fst (is_allowed (rate_limiter exhausted_reader) 60)"
    by (simp add: exhausted_reader_def is_allowed_def purge_def Let_def)
  have a: "fst (is_allowed (rate_limiter single_reader) 0)"
    by (simp add: single_reader_def is_allowed_def purge_def Let_def RateLimit_init_def)
  note c1 = text_to_speech_consults_once[OF exhausted_run]
  note c2 = text_to_speech_consults_once[OF single_run]
  from c1 d have e: "[Consult False :: nat event] = [Consult False]" by blast
  from c2 have f: "filter is_consult
    [Consult True,
     Progress 1 2 None, Generate (long_sentence @ [46]) (Inr (2000 :: nat)), Sleep,
     Progress 2 2 None, Generate [98, 46] (Inr 2), Sleep] =
   [Consult (fst (is_allowed (rate_limiter single_reader) 0))]" by blast
  from exhausted_run d e single_run a f show ?thesis by blast
qed

subsection \<open>A failing chunk\<close>




end
